theory Spec2Isabelle
  imports Main "HOL-Library.Word" "HOL-Library.Multiset"
begin

section \<open>Data model\<close>

text \<open>
  The plugin registry of \<^verbatim>\<open>Game\<close> is the member
  \<^verbatim>\<open>std::unordered_map<std::string, Plugin> plugins\<close>. It is modelled as an
  association list in insertion order; \<^verbatim>\<open>find\<close> is \<open>map_of\<close>.
  Of the class \<^verbatim>\<open>Plugin\<close> the code of \<^verbatim>\<open>game.cpp\<close> uses \<^verbatim>\<open>Name()\<close> and
  \<^verbatim>\<open>IsActive()\<close>.
\<close>

text \<open>Modelled from the spec: the fields \<open>isMaster\<close> and \<open>structuralMasters\<close> (keys) of the
  PluginRecord of section 3 (missing: the class \<^verbatim>\<open>Plugin\<close>).\<close>

record Plugin =
  Name :: string
  IsActive :: bool
  isMaster :: bool
  structuralMasters :: "string list"

type_synonym registry = "(string \<times> Plugin) list"

text \<open>Modelled from the spec: a diagnostic message of the context's message list. The
  tests append \<^verbatim>\<open>Message(Message::say, "1")\<close>; the graph construction reports an unknown
  master of a plugin and an overlay reference to a plugin that is not loaded (plugin key,
  then referenced key).\<close>

datatype Message = Say string | MissingMaster string string | DanglingReference string string

text \<open>Modelled from the spec: the MetadataOverlay of section 3 (missing: the metadata
  classes behind \<^verbatim>\<open>masterlist\<close> and \<^verbatim>\<open>userlist\<close>).\<close>

record MetadataOverlay =
  requirements :: "string list"
  loadAfter :: "string list"
  priority :: int
  isPriorityGlobal :: bool
  overlayMessages :: "string list"

text \<open>
  The context. \<open>plugins\<close>, \<open>pluginsFullyLoaded\<close>, \<open>masterlist\<close> (the curated overlay) and
  \<open>userlist\<close> are the members copied by the copy constructor of \<^verbatim>\<open>Game\<close>; the message
  list is what the tests reach through \<^verbatim>\<open>AppendMessage\<close> and \<^verbatim>\<open>GetMessages\<close>.
\<close>

text \<open>Modelled from the spec: the fields \<open>gameMaster\<close>, the key of the game's primary master
  file, and \<open>loadOrder\<close>, the current load order (keys), that the sorter of sections 4.2
  and 4.4 reads (missing: \<^verbatim>\<open>GameSettings\<close> and \<^verbatim>\<open>LoadOrderHandler\<close>).\<close>

record Game =
  plugins :: registry
  pluginsFullyLoaded :: bool
  masterlist :: "(string \<times> MetadataOverlay) list"
  userlist :: "(string \<times> MetadataOverlay) list"
  messages :: "Message list"
  gameMaster :: string
  loadOrder :: "string list"

text \<open>
  What \<^verbatim>\<open>game.cpp\<close> calls but does not define is a parameter of the model:
  \<^verbatim>\<open>boost::locale::to_lower\<close>, \<^verbatim>\<open>Plugin::IsValid\<close>, the constructor
  \<^verbatim>\<open>Plugin(game, name, headersOnly)\<close> (the specification's
  \<^verbatim>\<open>ParsePlugin(path, headersOnly) -> PluginRecord | ParseError\<close>),
  \<^verbatim>\<open>std::thread::hardware_concurrency()\<close> and
  \<^verbatim>\<open>LoadOrderHandler::IsPluginActive\<close>.
\<close>

type_synonym ParseError = string

record collaborators =
  to_lower :: "string \<Rightarrow> string"
  IsValid :: "string \<Rightarrow> bool"
  ParsePlugin :: "string \<Rightarrow> bool \<Rightarrow> ParseError + Plugin"
  hardware_concurrency :: nat
  LoadOrderHandler_IsPluginActive :: "string \<Rightarrow> bool"

text \<open>One entry of the directory iterated by \<^verbatim>\<open>fs::directory_iterator\<close>.\<close>

record dirent =
  filename :: string
  is_regular_file :: bool
  file_size :: "64 word"

text \<open>
  \<^verbatim>\<open>DivisionByZero\<close>: line 157 divides by \<^verbatim>\<open>sizeMap.size()\<close>.
  \<^verbatim>\<open>UncaughtException\<close>: the thread body of lines 190-195 has no handler, so an
  exception leaving the \<^verbatim>\<open>Plugin\<close> constructor leaves the thread function.
\<close>

datatype load_error = DivisionByZero | UncaughtException string ParseError

section \<open>Game::addPlugin and Game::IsPluginActive\<close>

text \<open>\<^verbatim>\<open>unordered_map::emplace\<close>: no insertion when the key is present.\<close>

definition emplace :: "string \<Rightarrow> Plugin \<Rightarrow> registry \<Rightarrow> registry" where
  "emplace k p reg = (case map_of reg k of Some _ \<Rightarrow> reg | None \<Rightarrow> reg @ [(k, p)])"

definition addPlugin :: "collaborators \<Rightarrow> Plugin \<Rightarrow> registry \<Rightarrow> registry" where
  "addPlugin c plugin reg = emplace (to_lower c (Name plugin)) plugin reg"

definition IsPluginActive :: "collaborators \<Rightarrow> Game \<Rightarrow> string \<Rightarrow> bool" where
  "IsPluginActive c g pluginName =
     (case map_of (plugins g) (to_lower c pluginName) of
        Some plugin \<Rightarrow> IsActive plugin
      | None \<Rightarrow> LoadOrderHandler_IsPluginActive c pluginName)"

section \<open>Game::LoadPlugins\<close>

subsection \<open>Scanning the directory (lines 137-157)\<close>

definition ascii_tolower :: "char \<Rightarrow> char" where
  "ascii_tolower ch =
     (case map_of (zip ''ABCDEFGHIJKLMNOPQRSTUVWXYZ'' ''abcdefghijklmnopqrstuvwxyz'') ch of
        Some l \<Rightarrow> l
      | None \<Rightarrow> ch)"

text \<open>\<^verbatim>\<open>boost::iends_with(name, ".ghost")\<close>, on ASCII.\<close>

definition iends_with_ghost :: "string \<Rightarrow> bool" where
  "iends_with_ghost name =
     (6 \<le> length name \<and> map ascii_tolower (drop (length name - 6) name) = ''.ghost'')"

definition trim_ghost :: "string \<Rightarrow> string" where
  "trim_ghost name = (if iends_with_ghost name then take (length name - 6) name else name)"

text \<open>
  \<^verbatim>\<open>multimap::emplace\<close>: the container iterates in ascending key order, and a new
  element goes after the elements with an equal key.
\<close>

fun mm_emplace :: "64 word \<Rightarrow> string \<Rightarrow> (64 word \<times> string) list \<Rightarrow> (64 word \<times> string) list" where
  "mm_emplace k v [] = [(k, v)]"
| "mm_emplace k v (x # xs) = (if k < fst x then (k, v) # x # xs else x # mm_emplace k v xs)"

fun scan :: "collaborators \<Rightarrow> dirent list \<Rightarrow> (64 word \<times> string) list \<Rightarrow> (64 word \<times> string) list" where
  "scan c [] sizeMap = sizeMap"
| "scan c (e # es) sizeMap =
     (if is_regular_file e \<and> IsValid c (filename e)
      then scan c es (mm_emplace (file_size e) (trim_ghost (filename e)) sizeMap)
      else scan c es sizeMap)"

text \<open>
  \<^verbatim>\<open>meanFileSize\<close> is the wrapping sum of the sizes, divided by the number of
  candidates. With no candidate the division is by zero, which C++ leaves undefined: the
  model stops there with \<open>DivisionByZero\<close>, and says nothing about what would follow.
\<close>

definition meanFileSize :: "(64 word \<times> string) list \<Rightarrow> load_error + 64 word" where
  "meanFileSize sizeMap =
     (if length sizeMap = 0 then Inl DivisionByZero
      else Inr (sum_list (map fst sizeMap) div word_of_nat (length sizeMap)))"

subsection \<open>Dividing the plugins between the threads (lines 164-183)\<close>

definition threadsToUse :: "nat \<Rightarrow> nat \<Rightarrow> nat" where
  "threadsToUse hc n = max (min hc n) 1"

text \<open>The loop of lines 176-183. In \<open>pluginGroups\<close> the vector has \<open>t\<close> entries and
  \<open>t\<close> is at least 1, so the index is in range.\<close>

fun distribute :: "nat \<Rightarrow> string list list \<Rightarrow> nat \<Rightarrow> (64 word \<times> string) list \<Rightarrow> string list list" where
  "distribute t groups currentGroup [] = groups"
| "distribute t groups currentGroup (plugin # rest) =
     (let cg = (if currentGroup = t then 0 else currentGroup)
      in distribute t (groups[cg := groups ! cg @ [snd plugin]]) (Suc cg) rest)"

definition pluginGroups :: "nat \<Rightarrow> (64 word \<times> string) list \<Rightarrow> string list list" where
  "pluginGroups hc sizeMap =
     (let t = threadsToUse hc (length sizeMap)
      in distribute t (replicate t []) 0 sizeMap)"

subsection \<open>Running the threads (lines 186-202)\<close>

text \<open>One iteration of a thread's loop: construct the plugin, then \<^verbatim>\<open>addPlugin\<close>.\<close>

definition load_one :: "collaborators \<Rightarrow> bool \<Rightarrow> string \<Rightarrow> registry \<Rightarrow> load_error + registry" where
  "load_one c headersOnly pluginName reg =
     (case ParsePlugin c pluginName headersOnly of
        Inl e \<Rightarrow> Inl (UncaughtException pluginName e)
      | Inr plugin \<Rightarrow> Inr (addPlugin c plugin reg))"

fun run_group :: "collaborators \<Rightarrow> bool \<Rightarrow> string list \<Rightarrow> registry \<Rightarrow> load_error + registry" where
  "run_group c headersOnly [] reg = Inr reg"
| "run_group c headersOnly (pluginName # rest) reg =
     (case load_one c headersOnly pluginName reg of
        Inl e \<Rightarrow> Inl e
      | Inr reg' \<Rightarrow> run_group c headersOnly rest reg')"

text \<open>
  The threads run concurrently; insertions are serialised by the mutex of
  \<^verbatim>\<open>addPlugin\<close>. A schedule is the sequence of thread indices in which the
  iterations take place: entry \<open>i\<close> lets thread \<open>i\<close> run its next iteration (an
  entry naming no thread, or a finished one, is skipped). When the schedule is
  used up, the joins let every thread run to its end, in thread order.
\<close>

fun run_threads :: "collaborators \<Rightarrow> bool \<Rightarrow> nat list \<Rightarrow> string list list \<Rightarrow> registry \<Rightarrow> load_error + registry" where
  "run_threads c headersOnly [] groups reg = run_group c headersOnly (concat groups) reg"
| "run_threads c headersOnly (i # schedule) groups reg =
     (if i < length groups then
        (case groups ! i of
           [] \<Rightarrow> run_threads c headersOnly schedule groups reg
         | pluginName # rest \<Rightarrow>
             (case load_one c headersOnly pluginName reg of
                Inl e \<Rightarrow> Inl e
              | Inr reg' \<Rightarrow> run_threads c headersOnly schedule (groups[i := rest]) reg'))
      else run_threads c headersOnly schedule groups reg)"

definition LoadPlugins :: "collaborators \<Rightarrow> nat list \<Rightarrow> dirent list \<Rightarrow> bool \<Rightarrow> Game \<Rightarrow> load_error + Game" where
  "LoadPlugins c schedule dir headersOnly g =
     (let sizeMap = scan c dir [] in
      case meanFileSize sizeMap of
        Inl e \<Rightarrow> Inl e
      | Inr _ \<Rightarrow>
          (case run_threads c headersOnly schedule
                  (pluginGroups (hardware_concurrency c) sizeMap) (plugins g) of
             Inl e \<Rightarrow> Inl e
           | Inr reg \<Rightarrow> Inr (g\<lparr>plugins := reg, pluginsFullyLoaded := \<not> headersOnly\<rparr>)))"

section \<open>The sorting engine\<close>

text \<open>
  The sorter (\<^verbatim>\<open>PluginSorter::Sort\<close>, declared in \<^verbatim>\<open>backend/plugin_sorter.h\<close>) is
  exercised by \<^verbatim>\<open>test_plugin_sorter.h\<close>; its code is outside the sources verified here.
  Every definition of this section is therefore written from the specification
  (sections 3 and 4.2 to 4.5), and says so. Plugins are identified by their keys; the
  overlays, the load order and \<open>gameMaster\<close> hold keys.
\<close>

subsection \<open>Merged overlays\<close>

text \<open>Modelled from the spec: the defaults of a MetadataOverlay (priority 0, not global,
  nothing else), for a plugin that an overlay source does not mention.\<close>

definition default_overlay :: MetadataOverlay where
  "default_overlay =
     \<lparr>requirements = [], loadAfter = [], priority = 0, isPriorityGlobal = False,
      overlayMessages = []\<rparr>"

text \<open>Modelled from the spec: the combination of the curated and the user overlay of one
  plugin (missing from the source: the metadata lists and their merge). Set-union on
  requirements, load-after entries and messages; priority and global flag from the user
  source where it gives a non-default value, otherwise from the curated source.\<close>

definition merge_overlay :: "MetadataOverlay \<Rightarrow> MetadataOverlay \<Rightarrow> MetadataOverlay" where
  "merge_overlay curated user =
     \<lparr>requirements = remdups (requirements curated @ requirements user),
      loadAfter = remdups (loadAfter curated @ loadAfter user),
      priority = (if priority user \<noteq> 0 then priority user else priority curated),
      isPriorityGlobal = (if isPriorityGlobal user then isPriorityGlobal user
                          else isPriorityGlobal curated),
      overlayMessages = remdups (overlayMessages curated @ overlayMessages user)\<rparr>"

text \<open>Modelled from the spec: the lookup of a plugin's entry in one overlay source
  (missing: the metadata list's find).\<close>

definition overlay_of :: "(string \<times> MetadataOverlay) list \<Rightarrow> string \<Rightarrow> MetadataOverlay" where
  "overlay_of source k = (case map_of source k of Some ov \<Rightarrow> ov | None \<Rightarrow> default_overlay)"

text \<open>Modelled from the spec: the merged overlay of a plugin of the context.\<close>

definition merged :: "Game \<Rightarrow> string \<Rightarrow> MetadataOverlay" where
  "merged g k = merge_overlay (overlay_of (masterlist g) k) (overlay_of (userlist g) k)"

subsection \<open>Dependency Graph Builder\<close>

text \<open>Modelled from the spec: the kinds of edges of the DependencyGraph, and an edge as
  (predecessor, successor, kind).\<close>

datatype EdgeKind = Structural | Requirement | LoadAfter | Priority | GameMaster

type_synonym edge = "string \<times> string \<times> EdgeKind"

text \<open>Modelled from the spec: the nodes of the graph (missing: the sorter's graph), the
  keys of all currently loaded plugins, in discovery order.\<close>

definition nodes :: "Game \<Rightarrow> string list" where
  "nodes g = map fst (plugins g)"

text \<open>Modelled from the spec: the edges into plugin \<open>k\<close> from the referenced keys that are
  loaded (a referenced key absent from the registry gives no edge).\<close>

definition ref_edges :: "string list \<Rightarrow> EdgeKind \<Rightarrow> string \<Rightarrow> string list \<Rightarrow> edge list" where
  "ref_edges ks kind k refs = map (\<lambda>r. (r, k, kind)) (filter (\<lambda>r. r \<in> set ks) refs)"

text \<open>Modelled from the spec: the diagnostics for the referenced keys that are not
  loaded.\<close>

definition ref_diagnostics ::
  "string list \<Rightarrow> (string \<Rightarrow> string \<Rightarrow> Message) \<Rightarrow> string \<Rightarrow> string list \<Rightarrow> Message list" where
  "ref_diagnostics ks diag k refs = map (diag k) (filter (\<lambda>r. r \<notin> set ks) refs)"

text \<open>Modelled from the spec: step 1 of the edge construction. The game's primary master
  file, if loaded, precedes every other master.\<close>

definition game_master_edges :: "Game \<Rightarrow> edge list" where
  "game_master_edges g =
     (if gameMaster g \<in> set (nodes g)
      then map (\<lambda>(k, p). (gameMaster g, k, GameMaster))
             (filter (\<lambda>(k, p). isMaster p \<and> k \<noteq> gameMaster g) (plugins g))
      else [])"

text \<open>Modelled from the spec: step 2, one edge from each structural master into the plugin.\<close>

definition structural_edges :: "Game \<Rightarrow> edge list" where
  "structural_edges g =
     concat (map (\<lambda>(k, p). ref_edges (nodes g) Structural k (structuralMasters p)) (plugins g))"

text \<open>Modelled from the spec: step 3, one edge from each key of the merged requirements
  and load-after sets into the plugin.\<close>

definition metadata_edges :: "Game \<Rightarrow> edge list" where
  "metadata_edges g =
     concat (map (\<lambda>k. ref_edges (nodes g) Requirement k (requirements (merged g k)) @
                       ref_edges (nodes g) LoadAfter k (loadAfter (merged g k))) (nodes g))"

text \<open>Modelled from the spec: the diagnostics of the graph construction, for unknown
  masters and for overlay references to plugins that are not loaded.\<close>

definition graph_diagnostics :: "Game \<Rightarrow> Message list" where
  "graph_diagnostics g =
     concat (map (\<lambda>(k, p). ref_diagnostics (nodes g) MissingMaster k (structuralMasters p))
               (plugins g)) @
     concat (map (\<lambda>k. ref_diagnostics (nodes g) DanglingReference k (requirements (merged g k)) @
                       ref_diagnostics (nodes g) DanglingReference k (loadAfter (merged g k)))
               (nodes g))"

text \<open>Modelled from the spec: BuildGraph, the hard edges in the order of their
  construction, with the diagnostics.\<close>

definition BuildGraph :: "Game \<Rightarrow> edge list \<times> Message list" where
  "BuildGraph g =
     (game_master_edges g @ structural_edges g @ metadata_edges g, graph_diagnostics g)"

subsection \<open>Priority Resolver\<close>

text \<open>Modelled from the spec: the starting value of the resolver (missing: the sorter's
  priority propagation), each node with its explicit priority (0 if unset).\<close>

definition initial_priorities :: "Game \<Rightarrow> (string \<times> int) list" where
  "initial_priorities g = map (\<lambda>k. (k, priority (merged g k))) (nodes g)"

text \<open>Modelled from the spec: priorities propagate along Requirement and LoadAfter edges
  only.\<close>

fun propagates :: "EdgeKind \<Rightarrow> bool" where
  "propagates Requirement = True"
| "propagates LoadAfter = True"
| "propagates kind = False"

text \<open>Modelled from the spec: the predecessors of node \<open>k\<close> along propagating edges.\<close>

definition propagating_preds :: "edge list \<Rightarrow> string \<Rightarrow> string list" where
  "propagating_preds es k =
     map fst (filter (\<lambda>(a, b, kind). b = k \<and> propagates kind) es)"

text \<open>Modelled from the spec: one relaxation step at one node: for an edge from A into
  B, B's effective priority becomes the maximum of B's and A's.\<close>

definition relax_node :: "(string \<times> int) list \<Rightarrow> string list \<Rightarrow> int \<Rightarrow> int" where
  "relax_node eff preds v =
     fold (\<lambda>a w. case map_of eff a of Some x \<Rightarrow> max w x | None \<Rightarrow> w) preds v"

text \<open>Modelled from the spec: one relaxation pass over all nodes.\<close>

definition relax :: "edge list \<Rightarrow> (string \<times> int) list \<Rightarrow> (string \<times> int) list" where
  "relax es eff = map (\<lambda>(k, v). (k, relax_node eff (propagating_preds es k) v)) eff"

text \<open>Modelled from the spec: the fixpoint, repeated relaxation until no value changes.\<close>

function resolve :: "edge list \<Rightarrow> (string \<times> int) list \<Rightarrow> (string \<times> int) list" where
  "resolve es eff = (let eff' = relax es eff in if eff' = eff then eff else resolve es eff')"
  by pat_completeness auto

text \<open>Modelled from the spec: ResolvePriorities, the mapping from key to effective
  priority.\<close>

definition ResolvePriorities :: "Game \<Rightarrow> (string \<times> int) list" where
  "ResolvePriorities g = resolve (fst (BuildGraph g)) (initial_priorities g)"

text \<open>Modelled from the spec: the effective priority of one plugin after the fixpoint.\<close>

definition effectivePriority :: "Game \<Rightarrow> string \<Rightarrow> int option" where
  "effectivePriority g k = map_of (ResolvePriorities g) k"

text \<open>Modelled from the spec: the group of a node, master group or plugin group.\<close>

definition in_master_group :: "Game \<Rightarrow> string \<Rightarrow> bool" where
  "in_master_group g k = (case map_of (plugins g) k of Some p \<Rightarrow> isMaster p | None \<Rightarrow> False)"

text \<open>Modelled from the spec: the Priority edges. For every ordered pair of nodes with
  different effective priorities, an edge from the lower to the higher one:
  unconditionally if either has a global priority, otherwise only within one group.\<close>

definition priority_edges :: "Game \<Rightarrow> (string \<times> int) list \<Rightarrow> edge list" where
  "priority_edges g eff =
     concat (map (\<lambda>(a, pa).
        map (\<lambda>(b, pb). (a, b, Priority))
          (filter (\<lambda>(b, pb). pa < pb \<and>
              (isPriorityGlobal (merged g a) \<or> isPriorityGlobal (merged g b) \<or>
               in_master_group g a = in_master_group g b)) eff)) eff)"

subsection \<open>Topological Sorter\<close>

text \<open>Modelled from the spec: the failure of a sort attempt, carrying the cycle as a
  sequence of plugin keys.\<close>

datatype SortError = CyclicDependencyError "string list"

text \<open>Modelled from the spec: whether the graph has an edge from \<open>a\<close> into \<open>b\<close>.\<close>

definition has_edge :: "edge list \<Rightarrow> string \<Rightarrow> string \<Rightarrow> bool" where
  "has_edge es a b = list_ex (\<lambda>(p, s, kind). p = a \<and> s = b) es"

text \<open>Modelled from the spec: the combined graph of the sorter. \<open>a\<close> must precede \<open>b\<close>
  when there is an edge from \<open>a\<close> into \<open>b\<close>, or when \<open>a\<close> is in the master group and \<open>b\<close> in
  the plugin group, unless a (global) Priority edge from \<open>b\<close> into \<open>a\<close> forces otherwise.\<close>

definition must_precede :: "Game \<Rightarrow> edge list \<Rightarrow> string \<Rightarrow> string \<Rightarrow> bool" where
  "must_precede g es a b =
     (has_edge es a b \<or>
      (in_master_group g a \<and> \<not> in_master_group g b \<and> \<not> List.member es (b, a, Priority)))"

text \<open>Modelled from the spec: the failure payload, one cycle among the unsorted nodes. The
  walk goes from a node \<open>n\<close> to an unsorted node that must precede it; \<open>path\<close> holds the
  nodes walked before \<open>n\<close>, the latest first, and \<open>unvisited\<close> the unsorted nodes not yet
  walked. As soon as a node of the walk must precede \<open>n\<close> the cycle is closed: the result is
  the path from that node, in precedence order, returned to its start. (Every unsorted node
  has an unsorted predecessor when the sort is stuck; the last case is for other
  arguments.)\<close>

function find_cycle :: "(string \<Rightarrow> string \<Rightarrow> bool) \<Rightarrow> string list \<Rightarrow> string \<Rightarrow> string list \<Rightarrow> string list" where
  "find_cycle prec unvisited n path =
     (case find (\<lambda>m. prec m n) (n # path) of
        Some m \<Rightarrow> m # takeWhile (\<lambda>x. x \<noteq> m) (n # path) @ [m]
      | None \<Rightarrow>
          (case find (\<lambda>m. prec m n) unvisited of
             Some m \<Rightarrow> find_cycle prec (removeAll m unvisited) m (n # path)
           | None \<Rightarrow> []))"
  by pat_completeness auto
termination
  by (relation "measure (\<lambda>(prec, unvisited, n, path). length unvisited)")
     (auto simp: find_Some_iff intro!: length_removeAll_less)

declare find_cycle.simps [simp del]

text \<open>Modelled from the spec: the Kahn-style sort. A node is ready when no unsorted node
  must precede it; the ready node that comes first in the tie-break order is removed and
  appended to the output. When no node is ready and unsorted nodes remain, the result is
  the error with a cycle, not a partial order.\<close>

function kahn :: "(string \<Rightarrow> string \<Rightarrow> bool) \<Rightarrow> string list \<Rightarrow> string list \<Rightarrow> SortError + string list" where
  "kahn prec remaining out =
     (case find (\<lambda>n. \<not> list_ex (\<lambda>m. prec m n) remaining) remaining of
        Some n \<Rightarrow> kahn prec (removeAll n remaining) (out @ [n])
      | None \<Rightarrow>
          (case remaining of
             [] \<Rightarrow> Inr out
           | n # rest \<Rightarrow> Inl (CyclicDependencyError
                             (find_cycle prec (removeAll n remaining) n []))))"
  by pat_completeness auto
termination
  by (relation "measure (\<lambda>(prec, remaining, out). length remaining)")
     (auto simp: find_Some_iff intro!: length_removeAll_less)

declare kahn.simps [simp del]

text \<open>Modelled from the spec: the fixed secondary key for ties, the node's position in the
  current load order or, for a node without one, its discovery order in the registry.\<close>

definition tie_break_order :: "Game \<Rightarrow> string list" where
  "tie_break_order g =
     filter (\<lambda>k. k \<in> set (nodes g)) (loadOrder g) @
     filter (\<lambda>k. k \<notin> set (loadOrder g)) (nodes g)"

text \<open>Modelled from the spec: the sorter on a graph given by its precedence relation.\<close>

definition TopologicalSort :: "(string \<Rightarrow> string \<Rightarrow> bool) \<Rightarrow> string list \<Rightarrow> SortError + string list" where
  "TopologicalSort prec ns = kahn prec ns []"

subsection \<open>Sort Session\<close>

text \<open>Modelled from the spec: the outcome of one sort attempt, from the registry and the
  overlays: the hard subgraph is checked for a cycle, the priorities are resolved, the
  Priority edges are added, and the combined graph is sorted.\<close>

definition sort_attempt :: "Game \<Rightarrow> SortError + string list" where
  "sort_attempt g =
     (let hard = fst (BuildGraph g) in
      case TopologicalSort (has_edge hard) (tie_break_order g) of
        Inl e \<Rightarrow> Inl e
      | Inr _ \<Rightarrow>
          TopologicalSort
            (must_precede g (hard @ priority_edges g (ResolvePriorities g)))
            (tie_break_order g))"

text \<open>Modelled from the spec: Sort on a context (missing: \<^verbatim>\<open>PluginSorter::Sort\<close>). The
  result is the context after the call and either the error or the ordered sequence of
  plugins. On success the context's message list is replaced by the newly produced
  one; on failure the context is left as it was.\<close>

definition Sort :: "Game \<Rightarrow> Game \<times> (SortError + (string \<times> Plugin) list)" where
  "Sort g =
     (case sort_attempt g of
        Inl e \<Rightarrow> (g, Inl e)
      | Inr order \<Rightarrow>
          (g\<lparr>messages := snd (BuildGraph g)\<rparr>,
           Inr (List.map_filter (\<lambda>k. map_option (Pair k) (map_of (plugins g) k)) order)))"

subsection \<open>The relations the properties speak about\<close>

text \<open>Modelled from the spec: the dependencies among loaded plugins that the cycle property
  speaks about. \<open>loads_before g a b\<close>: both plugins are loaded, and \<open>a\<close> is a structural master of
  \<open>b\<close> or a load-after entry of \<open>b\<close>'s merged overlay.\<close>

definition loads_before :: "Game \<Rightarrow> string \<Rightarrow> string \<Rightarrow> bool" where
  "loads_before g a b =
     (a \<in> set (nodes g) \<and>
      (case map_of (plugins g) b of
         Some p \<Rightarrow> a \<in> set (structuralMasters p) \<or> a \<in> set (loadAfter (merged g b))
       | None \<Rightarrow> False))"

text \<open>Modelled from the spec: "A load-afters B" of the priority property.
  \<open>load_afters g a b\<close>: both plugins are loaded, and \<open>b\<close> is a load-after entry of
  \<open>a\<close>'s merged overlay.\<close>

definition load_afters :: "Game \<Rightarrow> string \<Rightarrow> string \<Rightarrow> bool" where
  "load_afters g a b =
     (a \<in> set (nodes g) \<and> b \<in> set (nodes g) \<and> b \<in> set (loadAfter (merged g a)))"

section \<open>Notions used by the properties of the loader\<close>

text \<open>The names of the candidates, in ascending order of size.\<close>

definition candidates :: "collaborators \<Rightarrow> dirent list \<Rightarrow> string list" where
  "candidates c dir = map snd (scan c dir [])"

text \<open>The records that the constructor yields for the candidates that parse.\<close>

definition parsed_records :: "collaborators \<Rightarrow> bool \<Rightarrow> string list \<Rightarrow> Plugin list" where
  "parsed_records c headersOnly names =
     List.map_filter (\<lambda>n. case ParsePlugin c n headersOnly of Inl _ \<Rightarrow> None | Inr p \<Rightarrow> Some p) names"

text \<open>Every record of the registry is filed under its case-folded name.\<close>

definition keyed :: "collaborators \<Rightarrow> registry \<Rightarrow> bool" where
  "keyed c reg = list_all (\<lambda>(k, p). k = to_lower c (Name p)) reg"

text \<open>At most one record per key, each under its case-folded name.\<close>

definition registry_ok :: "collaborators \<Rightarrow> registry \<Rightarrow> bool" where
  "registry_ok c reg = (distinct (map fst reg) \<and> keyed c reg)"


section \<open>Auxiliary notions of the proofs\<close>


definition slack :: "(string \<times> int) list \<Rightarrow> nat" where
  "slack eff = sum_list (map (\<lambda>(k, v). nat (Max (snd ` set eff) - v)) eff)"

definition below :: "(string \<times> int) list \<Rightarrow> (string \<times> int) list \<Rightarrow> bool" where
  "below xs ys = list_all2 (\<lambda>x y. fst x = fst y \<and> snd x \<le> snd y) xs ys"

section \<open>Example data\<close>

text \<open>Collaborators for the examples: ASCII case folding, every file but a text file is a
  plugin, one file that the constructor cannot read, two hardware threads.\<close>

definition example_collaborators :: collaborators where
  "example_collaborators =
     \<lparr>to_lower = map ascii_tolower,
      IsValid = (\<lambda>n. n \<noteq> ''readme.txt''),
      ParsePlugin = (\<lambda>n h. if n = ''Corrupt.esp'' then Inl ''unreadable''
                     else Inr \<lparr>Name = n, IsActive = False, isMaster = False, structuralMasters = []\<rparr>),
      hardware_concurrency = 2,
      LoadOrderHandler_IsPluginActive = (\<lambda>n. n = ''Skyrim.esm'')\<rparr>"

definition empty_game :: Game where
  "empty_game =
     \<lparr>plugins = [], pluginsFullyLoaded = False, masterlist = [], userlist = [], messages = [],
      gameMaster = ''skyrim.esm'', loadOrder = []\<rparr>"

definition example_dir :: "dirent list" where
  "example_dir =
     [\<lparr>filename = ''Blank.esp'', is_regular_file = True, file_size = 3\<rparr>,
      \<lparr>filename = ''readme.txt'', is_regular_file = True, file_size = 1\<rparr>,
      \<lparr>filename = ''Blank - Different.esp.ghost'', is_regular_file = True, file_size = 2\<rparr>,
      \<lparr>filename = ''Blank - Plugin Dependent.esp'', is_regular_file = True, file_size = 2\<rparr>]"

definition corrupt_dir :: "dirent list" where
  "corrupt_dir = \<lparr>filename = ''Corrupt.esp'', is_regular_file = True, file_size = 1\<rparr> # example_dir"

text \<open>A context after a first load: a record of \<^verbatim>\<open>Blank.esp\<close> that differs from what the
  constructor yields now, and a record of a file that is no longer in the directory.\<close>

definition loaded_game :: Game where
  "loaded_game =
     empty_game\<lparr>plugins :=
       [(''blank.esp'', \<lparr>Name = ''Blank.esp'', IsActive = True, isMaster = False,
                          structuralMasters = []\<rparr>),
        (''removed.esp'', \<lparr>Name = ''Removed.esp'', IsActive = False, isMaster = False,
                          structuralMasters = []\<rparr>)]\<rparr>"

text \<open>Contexts with plugins named as in \<^verbatim>\<open>test_plugin_sorter.h\<close>: no overlay; the
  load-after entry of the test \<^verbatim>\<open>Sort_HasCycle\<close>; the priority and load-after entries of
  the test on recursive inheritance.\<close>

definition plugin_record :: "string \<Rightarrow> bool \<Rightarrow> string list \<Rightarrow> string \<times> Plugin" where
  "plugin_record n m ms =
     (n, \<lparr>Name = n, IsActive = False, isMaster = m, structuralMasters = ms\<rparr>)"

definition sorter_example :: Game where
  "sorter_example =
     \<lparr>plugins =
        [plugin_record ''skyrim.esm'' True [],
         plugin_record ''blank.esm'' True [],
         plugin_record ''blank - master dependent.esm'' True [''blank.esm''],
         plugin_record ''blank.esp'' False [],
         plugin_record ''blank - different.esp'' False [],
         plugin_record ''blank - master dependent.esp'' False [''blank.esm'']],
      pluginsFullyLoaded = True, masterlist = [], userlist = [], messages = [Say ''1''],
      gameMaster = ''skyrim.esm'', loadOrder = []\<rparr>"

definition load_after_overlay :: "string list \<Rightarrow> int \<Rightarrow> MetadataOverlay" where
  "load_after_overlay refs p =
     \<lparr>requirements = [], loadAfter = refs, priority = p, isPriorityGlobal = False,
      overlayMessages = []\<rparr>"

definition cyclic_example :: Game where
  "cyclic_example =
     sorter_example\<lparr>userlist :=
       [(''blank.esm'', load_after_overlay [''blank - master dependent.esm''] 0)]\<rparr>"

definition priority_example :: Game where
  "priority_example =
     sorter_example\<lparr>userlist :=
       [(''blank.esp'', load_after_overlay [] 2),
        (''blank - master dependent.esp'', load_after_overlay [''blank.esp''] 0),
        (''blank - different.esp'', load_after_overlay [''blank - master dependent.esp''] 0)]\<rparr>"

section \<open>Properties of the loader\<close>

text \<open>The equations that evaluate the loader on the example data.\<close>

lemmas loader_eval = LoadPlugins_def scan.simps mm_emplace.simps trim_ghost_def iends_with_ghost_def
  ascii_tolower_def meanFileSize_def pluginGroups_def threadsToUse_def distribute.simps Let_def
  run_threads.simps run_group.simps load_one_def addPlugin_def emplace_def
  example_collaborators_def empty_game_def example_dir_def corrupt_dir_def loaded_game_def
  candidates_def parsed_records_def map_filter_simps

subsection \<open>The size map and the thread groups\<close>

lemma set_mm_emplace: "set (mm_emplace k v sm) = insert (k, v) (set sm)"
  by (induction sm) auto

lemma sorted_mm_emplace:
  "sorted (map fst sm) \<Longrightarrow> sorted (map fst (mm_emplace k v sm))"
  by (induction sm) (auto simp: set_mm_emplace less_imp_le not_less)

lemma set_scan:
  "set (scan c dir sm) =
     set sm \<union> (\<lambda>e. (file_size e, trim_ghost (filename e))) `
                {e \<in> set dir. is_regular_file e \<and> IsValid c (filename e)}"
  by (induction dir arbitrary: sm) (auto simp: set_mm_emplace)

lemma sorted_scan: "sorted (map fst sm) \<Longrightarrow> sorted (map fst (scan c dir sm))"
  by (induction dir arbitrary: sm) (auto simp: sorted_mm_emplace)


lemma distribute_nth:
  "0 < t \<Longrightarrow> length groups = t \<Longrightarrow> cur \<le> t \<Longrightarrow> g < t \<Longrightarrow>
   distribute t groups cur sm ! g =
     groups ! g @ map (\<lambda>i. snd (sm ! i)) (filter (\<lambda>i. (cur + i) mod t = g) [0..<length sm])"
proof (induction sm arbitrary: groups cur)
  case Nil
  then show ?case by simp
next
  case (Cons p rest)
  define cg where "cg = (if cur = t then 0 else cur)"
  have cg: "cg < t" "cg = cur mod t" using Cons.prems by (auto simp: cg_def)
  let ?groups' = "groups[cg := groups ! cg @ [snd p]]"
  have step: "distribute t groups cur (p # rest) = distribute t ?groups' (Suc cg) rest"
    by (simp add: cg_def Let_def)
  have IH: "distribute t ?groups' (Suc cg) rest ! g =
     ?groups' ! g @ map (\<lambda>i. snd (rest ! i)) (filter (\<lambda>i. (Suc cg + i) mod t = g) [0..<length rest])"
    using Cons.IH[of ?groups' "Suc cg"] Cons.prems cg by simp
  have upt: "[0..<length (p # rest)] = 0 # map Suc [0..<length rest]"
    by (simp add: upt_conv_Cons map_Suc_upt del: upt_Suc)
  have modeq: "\<And>i. Suc (cur mod t + i) mod t = Suc (cur + i) mod t"
    by (metis add_Suc mod_Suc_eq mod_add_left_eq)
  show ?case
    unfolding step IH upt
    using Cons.prems cg
    by (auto simp: filter_map comp_def modeq nth_list_update)
qed


lemma set_concat_update_tl:
  "i < length groups \<Longrightarrow> groups ! i = x # rest \<Longrightarrow>
   set (concat groups) = insert x (set (concat (groups[i := rest])))"
proof (induction groups arbitrary: i)
  case Nil
  then show ?case by simp
next
  case (Cons g gs)
  show ?case
  proof (cases i)
    case 0
    then show ?thesis using Cons.prems by (simp del: set_concat)
  next
    case (Suc j)
    then have "set (concat gs) = insert x (set (concat (gs[j := rest])))"
      using Cons.IH[of j] Cons.prems by simp
    then show ?thesis using Suc by (simp del: set_concat)
  qed
qed


lemma threadsToUse_pos: "0 < threadsToUse hc n"
  by (simp add: threadsToUse_def)



lemma pluginGroups_nth:
  assumes "lane < threadsToUse hc (length sm)"
  shows "pluginGroups hc sm ! lane =
     map (\<lambda>i. snd (sm ! i)) (filter (\<lambda>i. i mod threadsToUse hc (length sm) = lane) [0..<length sm])"
  using distribute_nth[of "threadsToUse hc (length sm)"
      "replicate (threadsToUse hc (length sm)) []" 0 lane sm] assms
  by (simp add: pluginGroups_def Let_def threadsToUse_pos)


text \<open>
  \<^bold>\<open>Claim C8.\<close> The size map holds the valid regular files of the directory with their
  sizes, in ascending order of file size, and the candidate at
  position \<open>i\<close> of that order goes to thread group \<open>i mod t\<close>: group \<open>lane\<close> holds exactly
  the candidates at the positions \<open>i\<close> with \<open>i mod t = lane\<close>, in that order, so that fewer
  than \<open>t\<close> consecutive candidates land in distinct groups.
\<close>

theorem round_robin_by_size:
  assumes "sizeMap = scan c dir []" and "t = threadsToUse (hardware_concurrency c) (length sizeMap)"
  shows "set sizeMap = (\<lambda>e. (file_size e, trim_ghost (filename e))) `
            {e \<in> set dir. is_regular_file e \<and> IsValid c (filename e)} \<and>
    sorted (map fst sizeMap) \<and>
    (\<forall>lane < t. pluginGroups (hardware_concurrency c) sizeMap ! lane =
        map (\<lambda>i. snd (sizeMap ! i)) (filter (\<lambda>i. i mod t = lane) [0..<length sizeMap])) \<and>
    (\<forall>i < length sizeMap.
        snd (sizeMap ! i) \<in> set (pluginGroups (hardware_concurrency c) sizeMap ! (i mod t))) \<and>
    (\<forall>i j. i < j \<and> j < i + t \<longrightarrow> i mod t \<noteq> j mod t)"
proof (intro conjI allI impI)
  show "set sizeMap = (\<lambda>e. (file_size e, trim_ghost (filename e))) `
            {e \<in> set dir. is_regular_file e \<and> IsValid c (filename e)}"
    unfolding assms(1) by (simp add: set_scan)
next
  show "sorted (map fst sizeMap)" unfolding assms(1) by (rule sorted_scan) simp
next
  fix lane assume "lane < t"
  then show "pluginGroups (hardware_concurrency c) sizeMap ! lane =
        map (\<lambda>i. snd (sizeMap ! i)) (filter (\<lambda>i. i mod t = lane) [0..<length sizeMap])"
    unfolding assms(2) by (rule pluginGroups_nth)
next
  fix i assume i: "i < length sizeMap"
  have t: "0 < t" unfolding assms(2) by (rule threadsToUse_pos)
  then have "i mod t < threadsToUse (hardware_concurrency c) (length sizeMap)"
    unfolding assms(2) by simp
  from pluginGroups_nth[OF this] i
  show "snd (sizeMap ! i) \<in> set (pluginGroups (hardware_concurrency c) sizeMap ! (i mod t))"
    unfolding assms(2)[symmetric] by auto
next
  fix i j assume ij: "i < j \<and> j < i + t"
  show "i mod t \<noteq> j mod t"
  proof
    assume "i mod t = j mod t"
    then have "t dvd j - i" using ij by (metis mod_eq_dvd_iff_nat less_imp_le)
    then have "t \<le> j - i" using ij by (intro dvd_imp_le) auto
    then show False using ij by linarith
  qed
qed

theorem round_robin_by_size_witness:
  "scan example_collaborators corrupt_dir [] =
     [(1, ''Corrupt.esp''), (2, ''Blank - Different.esp''), (2, ''Blank - Plugin Dependent.esp''), (3, ''Blank.esp'')] \<and>
   threadsToUse (hardware_concurrency example_collaborators) 4 = 2 \<and>
   sorted (map fst (scan example_collaborators corrupt_dir [])) \<and>
   pluginGroups (hardware_concurrency example_collaborators) (scan example_collaborators corrupt_dir []) ! 0 =
     [''Corrupt.esp'', ''Blank - Plugin Dependent.esp''] \<and>
   pluginGroups (hardware_concurrency example_collaborators) (scan example_collaborators corrupt_dir []) ! 1 =
     [''Blank - Different.esp'', ''Blank.esp'']"
proof -
  let ?sm = "scan example_collaborators corrupt_dir []"
  let ?t = "threadsToUse (hardware_concurrency example_collaborators) (length ?sm)"
  have s: "?sm =
     [(1, ''Corrupt.esp''), (2, ''Blank - Different.esp''), (2, ''Blank - Plugin Dependent.esp''), (3, ''Blank.esp'')]"
    by (simp add: loader_eval)
  have t: "?t = 2" unfolding s by (simp add: threadsToUse_def example_collaborators_def)
  have t4: "threadsToUse (hardware_concurrency example_collaborators) 4 = 2"
    by (simp add: threadsToUse_def example_collaborators_def)
  note r = round_robin_by_size[OF refl refl, of example_collaborators corrupt_dir]
  from r have sorted: "sorted (map fst ?sm)" by blast
  from r have lanes: "\<forall>lane < ?t. pluginGroups (hardware_concurrency example_collaborators) ?sm ! lane =
        map (\<lambda>i. snd (?sm ! i)) (filter (\<lambda>i. i mod ?t = lane) [0..<length ?sm])" by blast
  have l0: "pluginGroups (hardware_concurrency example_collaborators) ?sm ! 0 =
        [''Corrupt.esp'', ''Blank - Plugin Dependent.esp'']"
    using lanes[rule_format, of 0] unfolding t by (simp add: s)
  have l1: "pluginGroups (hardware_concurrency example_collaborators) ?sm ! 1 =
        [''Blank - Different.esp'', ''Blank.esp'']"
    using lanes[rule_format, of 1] unfolding t by (simp add: s)
  show ?thesis using sorted s t4 l0 l1 by simp
qed

subsection \<open>Insertion into the registry\<close>

lemma addPlugin_present:
  "to_lower c (Name p) \<in> fst ` set reg \<Longrightarrow> addPlugin c p reg = reg"
  by (auto simp: addPlugin_def emplace_def map_of_eq_None_iff split: option.splits)


lemma distinct_addPlugin:
  "distinct (map fst reg) \<Longrightarrow> distinct (map fst (addPlugin c p reg))"
  by (auto simp: addPlugin_def emplace_def map_of_eq_None_iff split: option.splits)

lemma keyed_addPlugin: "keyed c reg \<Longrightarrow> keyed c (addPlugin c p reg)"
  by (auto simp: keyed_def addPlugin_def emplace_def split: option.splits)

lemma registry_ok_addPlugin: "registry_ok c reg \<Longrightarrow> registry_ok c (addPlugin c p reg)"
  by (simp add: registry_ok_def distinct_addPlugin keyed_addPlugin)


text \<open>
  \<^bold>\<open>Claim C9.\<close> \<open>IsPluginActive\<close> looks the case-folded name up in the registry; if a record is
  found its active flag is the answer, and only if none is found the answer is that of
  \<^verbatim>\<open>LoadOrderHandler::IsPluginActive\<close> (asked with the name as given).
\<close>

theorem IsPluginActive_registry_first:
  "(\<forall>p. map_of (plugins g) (to_lower c name) = Some p \<longrightarrow> IsPluginActive c g name = IsActive p) \<and>
   (map_of (plugins g) (to_lower c name) = None \<longrightarrow>
      IsPluginActive c g name = LoadOrderHandler_IsPluginActive c name)"
  by (simp add: IsPluginActive_def)

theorem IsPluginActive_registry_first_witness:
  "map_of (plugins loaded_game) (to_lower example_collaborators ''Blank.ESP'') =
     Some \<lparr>Name = ''Blank.esp'', IsActive = True, isMaster = False, structuralMasters = []\<rparr> \<and>
   IsPluginActive example_collaborators loaded_game ''Blank.ESP'' = True \<and>
   map_of (plugins loaded_game) (to_lower example_collaborators ''Skyrim.esm'') = None \<and>
   IsPluginActive example_collaborators loaded_game ''Skyrim.esm'' =
     LoadOrderHandler_IsPluginActive example_collaborators ''Skyrim.esm''"
proof -
  have 1: "map_of (plugins loaded_game) (to_lower example_collaborators ''Blank.ESP'') =
     Some \<lparr>Name = ''Blank.esp'', IsActive = True, isMaster = False, structuralMasters = []\<rparr>"
    by (simp add: loader_eval)
  have 2: "map_of (plugins loaded_game) (to_lower example_collaborators ''Skyrim.esm'') = None"
    by (simp add: loader_eval)
  from IsPluginActive_registry_first[of loaded_game example_collaborators "''Blank.ESP''"]
    IsPluginActive_registry_first[of loaded_game example_collaborators "''Skyrim.esm''"] 1 2
  show ?thesis by simp
qed

subsection \<open>Running the threads, under every schedule\<close>

text \<open>A property kept by every insertion is kept by the whole run.\<close>

lemma run_group_invariant:
  assumes "run_group c h names reg = Inr reg'" and "P reg"
    and "\<And>n r p. P r \<Longrightarrow> n \<in> set names \<Longrightarrow> ParsePlugin c n h = Inr p \<Longrightarrow> P (addPlugin c p r)"
  shows "P reg'"
  using assms
proof (induction names arbitrary: reg)
  case Nil
  then show ?case by simp
next
  case (Cons n names)
  from Cons.prems(1) obtain p where p: "ParsePlugin c n h = Inr p"
    and run: "run_group c h names (addPlugin c p reg) = Inr reg'"
    by (auto simp: load_one_def split: sum.splits)
  have "P (addPlugin c p reg)" using Cons.prems(2,3) p by auto
  then show ?case using Cons.IH[OF run] Cons.prems(3) by auto
qed

lemma run_threads_invariant:
  assumes "run_threads c h schedule groups reg = Inr reg'" and "P reg"
    and "\<And>n r p. P r \<Longrightarrow> n \<in> set (concat groups) \<Longrightarrow> ParsePlugin c n h = Inr p \<Longrightarrow> P (addPlugin c p r)"
  shows "P reg'"
  using assms
proof (induction schedule arbitrary: groups reg)
  case Nil
  then show ?case using run_group_invariant[of c h "concat groups" reg reg' P] by simp
next
  case (Cons i schedule)
  show ?case
  proof (cases "i < length groups")
    case False
    then show ?thesis using Cons by simp
  next
    case True
    show ?thesis
    proof (cases "groups ! i")
      case Nil
      then show ?thesis using Cons True by simp
    next
      case (Cons n rest)
      have sub: "set (concat groups) = insert n (set (concat (groups[i := rest])))"
        using set_concat_update_tl[OF True Cons] .
      from Cons.prems(1) True Cons obtain p where
        p: "ParsePlugin c n h = Inr p"
        and run: "run_threads c h schedule (groups[i := rest]) (addPlugin c p reg) = Inr reg'"
        using \<open>run_threads c h (i # schedule) groups reg = Inr reg'\<close>
        by (auto simp: load_one_def split: sum.splits)
      have "P (addPlugin c p reg)"
        using \<open>P reg\<close> p sub Cons.prems(3)[of reg n p] by auto
      then show ?thesis
        using Cons.IH[OF run] Cons.prems(3) sub by blast
    qed
  qed
qed











lemma LoadPlugins_InrD:
  assumes "LoadPlugins c schedule dir h g = Inr g'"
  shows "scan c dir [] \<noteq> [] \<and> g' = g\<lparr>plugins := plugins g', pluginsFullyLoaded := \<not> h\<rparr> \<and>
         run_threads c h schedule (pluginGroups (hardware_concurrency c) (scan c dir [])) (plugins g)
           = Inr (plugins g')"
  using assms
  by (auto simp: LoadPlugins_def Let_def meanFileSize_def split: sum.splits if_splits)



text \<open>
  \<^bold>\<open>Claim C10.\<close> The registry is keyed by the case-folded plugin name and \<open>addPlugin\<close> never
  overwrites: with the key present the registry is unchanged, otherwise the record is
  appended under its case-folded name; \<open>addPlugin\<close> and \<open>LoadPlugins\<close> (under every schedule of
  its threads) keep at most one record per case-folded name.
\<close>

theorem registry_one_record_per_key:
  assumes "registry_ok c reg"
  shows "registry_ok c (addPlugin c p reg) \<and>
         (to_lower c (Name p) \<in> fst ` set reg \<longrightarrow> addPlugin c p reg = reg) \<and>
         (to_lower c (Name p) \<notin> fst ` set reg \<longrightarrow>
            addPlugin c p reg = reg @ [(to_lower c (Name p), p)]) \<and>
         (\<forall>schedule dir h g g'. plugins g = reg \<and> LoadPlugins c schedule dir h g = Inr g' \<longrightarrow>
            registry_ok c (plugins g'))"
proof (intro conjI allI impI)
  show "registry_ok c (addPlugin c p reg)" using assms by (rule registry_ok_addPlugin)
  show "addPlugin c p reg = reg" if "to_lower c (Name p) \<in> fst ` set reg"
    using that by (rule addPlugin_present)
  show "addPlugin c p reg = reg @ [(to_lower c (Name p), p)]" if "to_lower c (Name p) \<notin> fst ` set reg"
    using that by (simp add: addPlugin_def emplace_def map_of_eq_None_iff split: option.splits)
  show "registry_ok c (plugins g')"
    if "plugins g = reg \<and> LoadPlugins c schedule dir h g = Inr g'" for schedule dir h g g'
  proof -
    from that LoadPlugins_InrD[of c schedule dir h g g']
    have run: "run_threads c h schedule (pluginGroups (hardware_concurrency c) (scan c dir [])) reg
        = Inr (plugins g')" by simp
    show ?thesis
      by (rule run_threads_invariant[OF run, of "registry_ok c"]) (simp_all add: assms registry_ok_addPlugin)
  qed
qed

theorem registry_one_record_per_key_witness:
  "registry_ok example_collaborators (plugins loaded_game) \<and>
   addPlugin example_collaborators
     \<lparr>Name = ''BLANK.ESP'', IsActive = False, isMaster = False, structuralMasters = []\<rparr>
     (plugins loaded_game) = plugins loaded_game \<and>
   (\<exists>g'. LoadPlugins example_collaborators [] example_dir False loaded_game = Inr g' \<and>
      registry_ok example_collaborators (plugins g'))"
proof -
  let ?p = "\<lparr>Name = ''BLANK.ESP'', IsActive = False, isMaster = False, structuralMasters = []\<rparr>"
  have ok: "registry_ok example_collaborators (plugins loaded_game)"
    by (simp add: registry_ok_def keyed_def loader_eval)
  have k: "to_lower example_collaborators (Name ?p) \<in> fst ` set (plugins loaded_game)"
    by (simp add: loader_eval)
  obtain g' where g': "LoadPlugins example_collaborators [] example_dir False loaded_game = Inr g'"
    by (simp add: loader_eval)
  from registry_one_record_per_key[OF ok, of ?p] k g' ok show ?thesis by blast
qed







section \<open>Properties of the sorting engine\<close>

subsection \<open>The priority fixpoint terminates\<close>

lemma relax_node_ge: "v \<le> relax_node eff preds v"
proof -
  have "v \<le> fold (\<lambda>a w. case map_of eff a of Some x \<Rightarrow> max w x | None \<Rightarrow> w) preds v"
  proof (induction preds arbitrary: v)
    case Nil
    show ?case by simp
  next
    case (Cons a preds)
    have "v \<le> (case map_of eff a of Some x \<Rightarrow> max v x | None \<Rightarrow> v)"
      by (simp split: option.splits)
    also have "\<dots> \<le> fold (\<lambda>a w. case map_of eff a of Some x \<Rightarrow> max w x | None \<Rightarrow> w) preds \<dots>"
      by (rule Cons.IH)
    finally show ?case by simp
  qed
  then show ?thesis by (simp add: relax_node_def)
qed

lemma relax_node_pred:
  "a \<in> set preds \<Longrightarrow> map_of eff a = Some x \<Longrightarrow> x \<le> relax_node eff preds v"
proof (induction preds arbitrary: v)
  case Nil
  then show ?case by simp
next
  case (Cons b preds)
  show ?case
  proof (cases "a = b")
    case True
    have "x \<le> max v x" by simp
    also have "\<dots> \<le> relax_node eff preds (max v x)" by (rule relax_node_ge)
    finally show ?thesis using True Cons.prems by (simp add: relax_node_def)
  next
    case False
    then have "a \<in> set preds" using Cons.prems by simp
    from Cons.IH[OF this Cons.prems(2)] show ?thesis by (simp add: relax_node_def)
  qed
qed

lemma relax_node_le:
  "v \<le> ub \<Longrightarrow> list_all (\<lambda>(k, x). x \<le> ub) eff \<Longrightarrow> relax_node eff preds v \<le> ub"
proof (induction preds arbitrary: v)
  case Nil
  then show ?case by (simp add: relax_node_def)
next
  case (Cons a preds)
  have "(case map_of eff a of Some x \<Rightarrow> max v x | None \<Rightarrow> v) \<le> ub"
    using Cons.prems by (auto simp: list_all_iff split: option.splits dest!: map_of_SomeD)
  from Cons.IH[OF this Cons.prems(2)] show ?case by (simp add: relax_node_def)
qed

lemma sum_list_less:
  fixes f g :: "'a \<Rightarrow> nat"
  assumes "\<forall>x \<in> set xs. f x \<le> g x" and "\<exists>x \<in> set xs. f x < g x"
  shows "sum_list (map f xs) < sum_list (map g xs)"
  using assms
proof (induction xs)
  case Nil
  then show ?case by simp
next
  case (Cons x xs)
  show ?case
  proof (cases "f x < g x")
    case True
    have "sum_list (map f xs) \<le> sum_list (map g xs)"
      using Cons.prems(1) by (intro sum_list_mono) simp
    then show ?thesis using True by simp
  next
    case False
    then have "\<exists>y \<in> set xs. f y < g y" using Cons.prems(2) by auto
    then have "sum_list (map f xs) < sum_list (map g xs)" using Cons by simp
    moreover have "f x \<le> g x" using Cons.prems(1) by simp
    ultimately show ?thesis by simp
  qed
qed

lemma le_Max_snd: "(k, v) \<in> set eff \<Longrightarrow> v \<le> Max (snd ` set eff)"
  by (rule Max_ge) (auto intro: rev_image_eqI)

lemma all_le_Max_snd: "list_all (\<lambda>(k, x). x \<le> Max (snd ` set eff)) eff"
  by (auto simp: list_all_iff le_Max_snd)

lemma Max_relax:
  assumes "eff \<noteq> []"
  shows "Max (snd ` set (relax es eff)) = Max (snd ` set eff)"
proof (rule antisym)
  let ?ub = "Max (snd ` set eff)"
  have bound: "list_all (\<lambda>(k, x). x \<le> ?ub) eff"
    by (rule all_le_Max_snd)
  have ne: "snd ` set (relax es eff) \<noteq> {}" using assms by (simp add: relax_def)
  show "Max (snd ` set (relax es eff)) \<le> ?ub"
  proof (rule Max.boundedI)
    fix w assume "w \<in> snd ` set (relax es eff)"
    then obtain k v where kv: "(k, v) \<in> set eff"
      and w: "w = relax_node eff (propagating_preds es k) v"
      by (auto simp: relax_def)
    have "v \<le> ?ub" using kv by (rule le_Max_snd)
    then show "w \<le> ?ub" unfolding w using bound by (rule relax_node_le)
  qed (use ne in simp_all)
  have "?ub \<in> snd ` set eff" using assms by (intro Max_in) simp_all
  then obtain k where kv: "(k, ?ub) \<in> set eff" by auto
  then have "relax_node eff (propagating_preds es k) ?ub \<in> snd ` set (relax es eff)"
    by (force simp: relax_def)
  then have "relax_node eff (propagating_preds es k) ?ub \<le> Max (snd ` set (relax es eff))"
    by (intro Max_ge) simp_all
  then show "?ub \<le> Max (snd ` set (relax es eff))"
    using relax_node_ge[of ?ub eff "propagating_preds es k"] by simp
qed

lemma slack_relax:
  assumes "relax es eff \<noteq> eff"
  shows "slack (relax es eff) < slack eff"
proof -
  let ?ub = "Max (snd ` set eff)"
  let ?new = "\<lambda>(k, v). relax_node eff (propagating_preds es k) v"
  have ne: "eff \<noteq> []" using assms by (auto simp: relax_def)
  have bound: "list_all (\<lambda>(k, x). x \<le> ?ub) eff"
    by (rule all_le_Max_snd)
  have "slack (relax es eff) = sum_list (map (\<lambda>kv. nat (?ub - ?new kv)) eff)"
    by (simp add: slack_def Max_relax[OF ne]) (simp add: relax_def comp_def case_prod_unfold)
  also have "\<dots> < sum_list (map (\<lambda>kv. nat (?ub - snd kv)) eff)"
  proof (rule sum_list_less)
    show "\<forall>kv \<in> set eff. nat (?ub - ?new kv) \<le> nat (?ub - snd kv)"
      using relax_node_ge by (auto simp: nat_le_eq_zle)
    have "\<exists>kv \<in> set eff. ?new kv \<noteq> snd kv"
    proof (rule ccontr)
      assume "\<not> ?thesis"
      then have "map (\<lambda>(k, v). (k, relax_node eff (propagating_preds es k) v)) eff = map (\<lambda>kv. kv) eff"
        by (intro map_cong) auto
      then show False using assms by (simp add: relax_def)
    qed
    then obtain k v where kv: "(k, v) \<in> set eff"
      and neq: "relax_node eff (propagating_preds es k) v \<noteq> v" by auto
    have lt: "v < relax_node eff (propagating_preds es k) v"
      using neq relax_node_ge[of v eff "propagating_preds es k"] by simp
    have "v \<le> ?ub" using kv by (rule le_Max_snd)
    then have "relax_node eff (propagating_preds es k) v \<le> ?ub"
      using bound by (rule relax_node_le)
    then have "nat (?ub - ?new (k, v)) < nat (?ub - snd (k, v))" using lt by simp
    then show "\<exists>kv \<in> set eff. nat (?ub - ?new kv) < nat (?ub - snd kv)" using kv by blast
  qed
  also have "\<dots> = slack eff" by (simp add: slack_def case_prod_unfold)
  finally show ?thesis .
qed

termination resolve
  by (relation "measure (\<lambda>(es, eff). slack eff)") (auto simp: slack_relax)

declare resolve.simps [simp del]

subsection \<open>Sort does not read the message list\<close>

lemma nodes_messages [simp]: "nodes (g\<lparr>messages := m\<rparr>) = nodes g"
  by (simp add: nodes_def)

lemma merged_messages [simp]: "merged (g\<lparr>messages := m\<rparr>) = merged g"
  by (rule ext) (simp add: merged_def)

lemma in_master_group_messages [simp]: "in_master_group (g\<lparr>messages := m\<rparr>) = in_master_group g"
  by (rule ext) (simp add: in_master_group_def)

lemma BuildGraph_messages [simp]: "BuildGraph (g\<lparr>messages := m\<rparr>) = BuildGraph g"
  by (simp add: BuildGraph_def game_master_edges_def structural_edges_def metadata_edges_def
      graph_diagnostics_def)






subsection \<open>Cycles\<close>

lemma kahn_stuck:
  assumes "S \<noteq> {}" and "S \<subseteq> set remaining" and "\<forall>s \<in> S. \<exists>p \<in> S. prec p s"
  shows "\<exists>c. kahn prec remaining out = Inl (CyclicDependencyError c)"
  using assms
proof (induction prec remaining out rule: kahn.induct)
  case (1 prec remaining out)
  show ?case
  proof (cases "find (\<lambda>n. \<not> list_ex (\<lambda>m. prec m n) remaining) remaining")
    case None
    from "1.prems"(1,2) have "remaining \<noteq> []" by auto
    then show ?thesis using None by (subst kahn.simps) (simp split: list.splits)
  next
    case (Some n)
    then have ready: "\<not> list_ex (\<lambda>m. prec m n) remaining"
      by (auto simp: find_Some_iff)
    have "n \<notin> S"
    proof
      assume "n \<in> S"
      then obtain p where "p \<in> S" "prec p n" using "1.prems"(3) by blast
      then show False using ready "1.prems"(2) by (auto simp: list_ex_iff)
    qed
    then have sub: "S \<subseteq> set (removeAll n remaining)" using "1.prems"(2) by auto
    have "\<exists>c. kahn prec (removeAll n remaining) (out @ [n]) = Inl (CyclicDependencyError c)"
      using "1.IH"[OF Some "1.prems"(1) sub "1.prems"(3)] .
    then show ?thesis using Some by (subst kahn.simps) simp
  qed
qed

lemma set_tie_break_order: "set (tie_break_order g) = set (nodes g)"
  by (auto simp: tie_break_order_def)

lemma has_edge_iff: "has_edge es a b = (\<exists>kind. (a, b, kind) \<in> set es)"
  by (auto simp: has_edge_def list_ex_iff)

lemma mem_ref_edges:
  "(r, k', kind') \<in> set (ref_edges ks kind k refs) \<longleftrightarrow>
     k' = k \<and> kind' = kind \<and> r \<in> set ks \<and> r \<in> set refs"
  by (auto simp: ref_edges_def)

lemma structural_edgeI:
  "(b, p) \<in> set (plugins g) \<Longrightarrow> a \<in> set (structuralMasters p) \<Longrightarrow> a \<in> set (nodes g) \<Longrightarrow>
   (a, b, Structural) \<in> set (structural_edges g)"
  unfolding structural_edges_def set_concat set_map
  by (rule UN_I[of "ref_edges (nodes g) Structural b (structuralMasters p)"])
     (auto simp: mem_ref_edges intro: rev_image_eqI)

lemma loadAfter_edgeI:
  "b \<in> set (nodes g) \<Longrightarrow> a \<in> set (loadAfter (merged g b)) \<Longrightarrow> a \<in> set (nodes g) \<Longrightarrow>
   (a, b, LoadAfter) \<in> set (metadata_edges g)"
  unfolding metadata_edges_def set_concat set_map
  by (rule UN_I[of "ref_edges (nodes g) Requirement b (requirements (merged g b)) @
                    ref_edges (nodes g) LoadAfter b (loadAfter (merged g b))"])
     (auto simp: mem_ref_edges)

lemma loads_before_nodes: "loads_before g a b \<Longrightarrow> b \<in> set (nodes g)"
proof -
  assume "loads_before g a b"
  then obtain p where "map_of (plugins g) b = Some p"
    by (auto simp: loads_before_def split: option.splits)
  then have "(b, p) \<in> set (plugins g)" by (rule map_of_SomeD)
  then show ?thesis unfolding nodes_def by (simp add: rev_image_eqI)
qed

lemma loads_before_edge:
  assumes "loads_before g a b"
  shows "has_edge (fst (BuildGraph g)) a b"
proof -
  from assms obtain p where a: "a \<in> set (nodes g)" and p: "map_of (plugins g) b = Some p"
    and d: "a \<in> set (structuralMasters p) \<or> a \<in> set (loadAfter (merged g b))"
    by (auto simp: loads_before_def split: option.splits)
  have bp: "(b, p) \<in> set (plugins g)" using p by (rule map_of_SomeD)
  have b: "b \<in> set (nodes g)" using assms by (rule loads_before_nodes)
  from d show ?thesis
  proof
    assume "a \<in> set (structuralMasters p)"
    then have "(a, b, Structural) \<in> set (structural_edges g)"
      using a bp by (simp add: structural_edgeI)
    then show ?thesis unfolding has_edge_iff BuildGraph_def by auto
  next
    assume "a \<in> set (loadAfter (merged g b))"
    then have "(a, b, LoadAfter) \<in> set (metadata_edges g)"
      using a b by (simp add: loadAfter_edgeI)
    then show ?thesis unfolding has_edge_iff BuildGraph_def by auto
  qed
qed

text \<open>
  \<^bold>\<open>Claim C2.\<close> If the structural masters of the loaded plugins and the load-after entries of their
  merged overlays contain a cycle, \<open>Sort\<close> fails with a \<open>CyclicDependencyError\<close> (no order is
  returned) and leaves the context, and so its message list, as it was.
\<close>

theorem Sort_cycle_fails:
  assumes "(k, k) \<in> {(a, b). loads_before g a b}\<^sup>+"
  shows "\<exists>cycle. snd (Sort g) = Inl (CyclicDependencyError cycle) \<and> fst (Sort g) = g
           \<and> messages (fst (Sort g)) = messages g"
proof -
  let ?R = "{(a, b). loads_before g a b}"
  define S where "S = {x. (x, x) \<in> ?R\<^sup>+}"
  have ne: "S \<noteq> {}" using assms by (auto simp: S_def)
  have pred: "\<forall>s \<in> S. \<exists>p \<in> S. has_edge (fst (BuildGraph g)) p s"
  proof
    fix s assume "s \<in> S"
    then have "(s, s) \<in> ?R\<^sup>+" by (simp add: S_def)
    then obtain p where sp: "(s, p) \<in> ?R\<^sup>*" and ps: "(p, s) \<in> ?R"
      by (meson tranclD2)
    then have "(p, p) \<in> ?R\<^sup>+" by (meson rtrancl_into_trancl2)
    then have "p \<in> S" by (simp add: S_def)
    moreover have "has_edge (fst (BuildGraph g)) p s" using ps by (simp add: loads_before_edge)
    ultimately show "\<exists>p \<in> S. has_edge (fst (BuildGraph g)) p s" by blast
  qed
  have sub: "S \<subseteq> set (tie_break_order g)"
  proof
    fix s assume "s \<in> S"
    then have "(s, s) \<in> ?R\<^sup>+" by (simp add: S_def)
    then obtain p where "(p, s) \<in> ?R" by (meson tranclD2)
    then show "s \<in> set (tie_break_order g)"
      by (simp add: set_tie_break_order loads_before_nodes)
  qed
  obtain c where "kahn (has_edge (fst (BuildGraph g))) (tie_break_order g) [] = Inl (CyclicDependencyError c)"
    using kahn_stuck[OF ne sub pred] by blast
  then have "sort_attempt g = Inl (CyclicDependencyError c)"
    by (simp add: sort_attempt_def TopologicalSort_def)
  then show ?thesis by (simp add: Sort_def)
qed

theorem Sort_cycle_fails_witness:
  "loads_before cyclic_example ''blank - master dependent.esm'' ''blank.esm'' \<and>
   loads_before cyclic_example ''blank.esm'' ''blank - master dependent.esm'' \<and>
   (\<exists>cycle. snd (Sort cyclic_example) = Inl (CyclicDependencyError cycle)) \<and>
   messages (fst (Sort cyclic_example)) = [Say ''1'']"
proof -
  have 1: "loads_before cyclic_example ''blank - master dependent.esm'' ''blank.esm''" by code_simp
  have 2: "loads_before cyclic_example ''blank.esm'' ''blank - master dependent.esm''" by code_simp
  have "(''blank.esm'', ''blank.esm'') \<in> {(a, b). loads_before cyclic_example a b}\<^sup>+"
  proof (rule trancl_into_trancl[OF r_into_trancl])
    show "(''blank.esm'', ''blank - master dependent.esm'') \<in> {(a, b). loads_before cyclic_example a b}"
      using 2 by simp
    show "(''blank - master dependent.esm'', ''blank.esm'') \<in> {(a, b). loads_before cyclic_example a b}"
      using 1 by simp
  qed
  from Sort_cycle_fails[OF this] 1 2 show ?thesis
    by (auto simp: cyclic_example_def sorter_example_def)
qed

subsection \<open>Priorities\<close>

lemma resolve_fixpoint: "relax es (resolve es eff) = resolve es eff"
proof (induction es eff rule: resolve.induct)
  case (1 es eff)
  show ?case
  proof (cases "relax es eff = eff")
    case True
    then show ?thesis by (subst (1 2) resolve.simps) simp
  next
    case False
    then show ?thesis using "1.IH"[OF refl False] by (subst (1 2) resolve.simps) simp
  qed
qed

lemma below_refl: "below xs xs"
  by (simp add: below_def list_all2_same)

lemma below_trans: "below xs ys \<Longrightarrow> below ys zs \<Longrightarrow> below xs zs"
  unfolding below_def
  by (rule list_all2_trans[of "\<lambda>x y. fst x = fst y \<and> snd x \<le> snd y"
        "\<lambda>x y. fst x = fst y \<and> snd x \<le> snd y"]) auto

lemma below_relax: "below eff (relax es eff)"
  unfolding below_def relax_def
  by (simp add: list_all2_map2 list_all2_same case_prod_unfold relax_node_ge)

lemma below_resolve: "below eff (resolve es eff)"
proof (induction es eff rule: resolve.induct)
  case (1 es eff)
  show ?case
  proof (cases "relax es eff = eff")
    case True
    then show ?thesis by (subst resolve.simps) (simp add: below_refl)
  next
    case False
    have "below eff (relax es eff)" by (rule below_relax)
    also have "below (relax es eff) (resolve es (relax es eff))"
      using "1.IH"[OF refl False] .
    finally (below_trans) show ?thesis using False by (subst resolve.simps) simp
  qed
qed

lemma below_map_of:
  "below xs ys \<Longrightarrow> map_of xs k = Some v \<Longrightarrow> \<exists>w. map_of ys k = Some w \<and> v \<le> w"
  unfolding below_def
  by (induction xs ys rule: list_all2_induct) (auto split: if_splits)

lemma fixpoint_edge:
  assumes fp: "relax es eff = eff"
    and edge: "(a, b, kind) \<in> set es" and kind: "propagates kind"
    and a: "map_of eff a = Some va" and b: "map_of eff b = Some vb"
  shows "va \<le> vb"
proof -
  have "(b, vb) \<in> set eff" using b by (rule map_of_SomeD)
  moreover have "map (\<lambda>(k, v). (k, relax_node eff (propagating_preds es k) v)) eff = map (\<lambda>x. x) eff"
    using fp by (simp add: relax_def)
  ultimately have "(b, relax_node eff (propagating_preds es b) vb) = (b, vb)"
    unfolding map_eq_conv by fastforce
  then have eq: "relax_node eff (propagating_preds es b) vb = vb" by simp
  have "a \<in> set (propagating_preds es b)"
    unfolding propagating_preds_def using edge kind by (force intro: rev_image_eqI)
  from relax_node_pred[OF this a, of vb] show ?thesis by (simp add: eq)
qed

lemma map_of_initial_priorities:
  "k \<in> set (nodes g) \<Longrightarrow> map_of (initial_priorities g) k = Some (priority (merged g k))"
  unfolding initial_priorities_def by (induction "nodes g") (auto simp: map_of_map_restrict)

lemma load_afters_edge:
  "load_afters g a b \<Longrightarrow> (b, a, LoadAfter) \<in> set (fst (BuildGraph g))"
  by (simp add: load_afters_def BuildGraph_def loadAfter_edgeI)

lemma effectivePriority_ge_explicit:
  assumes "k \<in> set (nodes g)"
  shows "\<exists>v. effectivePriority g k = Some v \<and> priority (merged g k) \<le> v"
  unfolding effectivePriority_def ResolvePriorities_def
  using below_map_of[OF below_resolve map_of_initial_priorities[OF assms]] .

lemma effectivePriority_step:
  assumes "load_afters g a b"
    and "effectivePriority g b = Some vb"
  shows "\<exists>va. effectivePriority g a = Some va \<and> vb \<le> va"
proof -
  have "a \<in> set (nodes g)" using assms(1) by (simp add: load_afters_def)
  then obtain va where va: "effectivePriority g a = Some va"
    using effectivePriority_ge_explicit by blast
  have "vb \<le> va"
    using fixpoint_edge[OF resolve_fixpoint load_afters_edge[OF assms(1)], of "initial_priorities g" vb va]
      assms(2) va
    by (simp add: effectivePriority_def ResolvePriorities_def)
  then show ?thesis using va by simp
qed

lemma effectivePriority_chain:
  assumes "(A, B) \<in> {(a, b). load_afters g a b}\<^sup>+"
    and "effectivePriority g B = Some vb"
  shows "\<exists>va. effectivePriority g A = Some va \<and> vb \<le> va"
  using assms
proof (induction rule: converse_trancl_induct)
  case (base y)
  then show ?case using effectivePriority_step by simp
next
  case (step y z)
  then obtain vz where "effectivePriority g z = Some vz" "vb \<le> vz" by auto
  moreover have "load_afters g y z" using step.hyps(1) by simp
  ultimately show ?case using effectivePriority_step[of g y z vz] by force
qed

lemma map_of_reordered:
  assumes "mset ul = mset ul'" and "distinct (map fst ul')"
  shows "map_of ul = map_of ul'"
proof -
  have "mset (map fst ul) = mset (map fst ul')" using assms(1) by (metis mset_map)
  then have "distinct (map fst ul)" using assms(2) by (metis mset_eq_imp_distinct_iff)
  moreover have "set ul = set ul'" using assms(1) by (rule mset_eq_setD)
  ultimately show ?thesis using assms(2) by (simp add: map_of_inject_set)
qed

lemma ResolvePriorities_userlist:
  assumes "map_of ul = map_of (userlist g)"
  shows "ResolvePriorities (g\<lparr>userlist := ul\<rparr>) = ResolvePriorities g"
proof -
  have n: "nodes (g\<lparr>userlist := ul\<rparr>) = nodes g" by (simp add: nodes_def)
  have m: "merged (g\<lparr>userlist := ul\<rparr>) = merged g"
    by (rule ext) (simp add: merged_def overlay_of_def assms)
  have "BuildGraph (g\<lparr>userlist := ul\<rparr>) = BuildGraph g"
    unfolding BuildGraph_def game_master_edges_def structural_edges_def metadata_edges_def
      graph_diagnostics_def n m by simp
  then show ?thesis by (simp add: ResolvePriorities_def initial_priorities_def n m)
qed

text \<open>
  \<^bold>\<open>Claim C4.\<close> If A load-afters B, directly or through a chain of load-after entries of any
  length, then after the fixpoint A's effective priority is at least B's explicit
  priority; and the effective priorities do not depend on the order in which the entries
  of the user overlay were registered.
\<close>

theorem priority_inherited_along_load_after:
  assumes "(A, B) \<in> {(a, b). load_afters g a b}\<^sup>+"
    and "mset ul = mset (userlist g)" and "distinct (map fst (userlist g))"
  shows "(\<exists>v. effectivePriority g A = Some v \<and> priority (merged g B) \<le> v) \<and>
         effectivePriority (g\<lparr>userlist := ul\<rparr>) = effectivePriority g"
proof
  have "B \<in> set (nodes g)"
    using assms(1) by (induction rule: trancl_induct) (auto simp: load_afters_def)
  then obtain vb where vb: "effectivePriority g B = Some vb" "priority (merged g B) \<le> vb"
    using effectivePriority_ge_explicit by blast
  from effectivePriority_chain[OF assms(1) vb(1)] vb(2)
  show "\<exists>v. effectivePriority g A = Some v \<and> priority (merged g B) \<le> v" by force
  have "map_of ul = map_of (userlist g)" using assms(2,3) by (rule map_of_reordered)
  then show "effectivePriority (g\<lparr>userlist := ul\<rparr>) = effectivePriority g"
    by (intro ext) (simp add: effectivePriority_def ResolvePriorities_userlist)
qed

theorem priority_inherited_along_load_after_witness:
  "priority (merged priority_example ''blank.esp'') = 2 \<and>
   (\<exists>v. effectivePriority priority_example ''blank - different.esp'' = Some v \<and> 2 \<le> v) \<and>
   effectivePriority (priority_example\<lparr>userlist := rev (userlist priority_example)\<rparr>) =
     effectivePriority priority_example"
proof -
  have 1: "load_afters priority_example ''blank - different.esp'' ''blank - master dependent.esp''"
    by code_simp
  have 2: "load_afters priority_example ''blank - master dependent.esp'' ''blank.esp''"
    by code_simp
  have c: "(''blank - different.esp'', ''blank.esp'') \<in> {(a, b). load_afters priority_example a b}\<^sup>+"
  proof (rule trancl_into_trancl[OF r_into_trancl])
    show "(''blank - different.esp'', ''blank - master dependent.esp'') \<in>
        {(a, b). load_afters priority_example a b}"
      using 1 by simp
    show "(''blank - master dependent.esp'', ''blank.esp'') \<in> {(a, b). load_afters priority_example a b}"
      using 2 by simp
  qed
  have p: "priority (merged priority_example ''blank.esp'') = 2" by code_simp
  have m: "mset (rev (userlist priority_example)) = mset (userlist priority_example)" by simp
  have d: "distinct (map fst (userlist priority_example))" by code_simp
  from priority_inherited_along_load_after[OF c m d] p show ?thesis by simp
qed

end
